theory Spec2Isabelle
  imports Complex_Main "HOL-Library.Log_Nat"
begin

section \<open>Data model of srtools\<close>

text \<open>
  A shallow embedding of the consensus and read-overlap functions of \<^verbatim>\<open>srtools.py\<close>.
  Python's unbounded integers are \<open>int\<close>, strings are \<open>string\<close>, a one-character
  string that is only ever compared with another character (a CIGAR operator) is a
  \<open>char\<close>. Exceptions are values of the type \<open>error\<close>; a function that can raise
  returns \<open>error + 'a\<close>, with \<open>Inl\<close> for the exception.
\<close>

datatype error = UnmappedReadError | ValueError | ZeroDivisionError | OverflowError

type_synonym cigar = "(int \<times> char) list"

text \<open>The class \<^verbatim>\<open>Read\<close>. Equality (\<^verbatim>\<open>__eq__\<close>) compares all twelve fields.\<close>

record read =
  qname :: string
  flag :: int
  rname :: string
  pos :: int
  mapq :: int
  cigar :: cigar
  rnext :: string
  pnext :: int
  tlen :: int
  seq :: string
  qual :: string
  tags :: "string list"

text \<open>
  The class \<^verbatim>\<open>Feature\<close>; its attribute \<^verbatim>\<open>end\<close> is \<open>f_end\<close> here. The
  optional fields hold \<open>None\<close> where the GFF line has a dot.
\<close>

record feature =
  sequence :: string
  source :: string
  f_type :: string
  start :: int
  f_end :: int
  score :: "rat option"
  strand :: "string option"
  frame :: "string option"
  attribute :: "string option"

section \<open>Covered ranges and overlap\<close>

text \<open>
  \<^verbatim>\<open>Read.get_covered_range\<close>:
  \<^verbatim>\<open>(self.pos, self.pos + sum([i for i, o in self.cigar if o == "M"]) - 1)\<close>.
\<close>

definition get_covered_range :: "read \<Rightarrow> int \<times> int" where
  "get_covered_range r =
     (let first_base = pos r;
          last_base = pos r + sum_list (map fst (filter (\<lambda>(i, op). op = CHR ''M'') (cigar r))) - 1
      in (first_base, last_base))"

text \<open>
  \<^verbatim>\<open>overlaps\<close>: \<^verbatim>\<open>return x0 <= y0 <= x1 or y0 <= y1 <= x1\<close>.
\<close>

definition overlaps :: "read \<Rightarrow> read \<Rightarrow> bool" where
  "overlaps read1 read2 =
     (case get_covered_range read1 of (x0, x1) \<Rightarrow>
      case get_covered_range read2 of (y0, y1) \<Rightarrow>
        (x0 \<le> y0 \<and> y0 \<le> x1) \<or> (y0 \<le> y1 \<and> y1 \<le> x1))"

text \<open>
  \<^verbatim>\<open>expressed_loci\<close> is a generator; the model returns the list of the groups it
  yields, in yield order. The first argument of the loop is the local \<^verbatim>\<open>locus\<close>,
  the second the part of the stream not yet consumed.
\<close>

fun expressed_loci_loop :: "read list \<Rightarrow> read list \<Rightarrow> read list list" where
  "expressed_loci_loop locus [] = [locus]"
| "expressed_loci_loop locus (r # reads) =
     (if locus = [] \<or> overlaps (last locus) r
      then expressed_loci_loop (locus @ [r]) reads
      else locus # expressed_loci_loop [r] reads)"

definition expressed_loci :: "read list \<Rightarrow> read list list" where
  "expressed_loci reads = expressed_loci_loop [] reads"

text \<open>A read that has the given position and a CIGAR of one match run; used in examples.\<close>

definition match_read :: "int \<Rightarrow> int \<Rightarrow> read" where
  "match_read p n =
     \<lparr>qname = ''r'', flag = 0, rname = ''1'', pos = p, mapq = 0,
      cigar = [(n, CHR ''M'')], rnext = ''*'', pnext = 0, tlen = 0,
      seq = replicate (nat n) CHR ''A'', qual = replicate (nat n) CHR ''H'', tags = []\<rparr>"

section \<open>Coverage and features\<close>

text \<open>
  \<^verbatim>\<open>coverage\<close>: the loop over \<^verbatim>\<open>reads[1:]\<close> carries the locals \<^verbatim>\<open>first\<close> and
  \<^verbatim>\<open>last\<close>, here \<open>first_b\<close> and \<open>last_b\<close>.
\<close>

fun coverage_loop :: "int \<Rightarrow> int \<Rightarrow> read list \<Rightarrow> int \<times> int" where
  "coverage_loop first_b last_b [] = (first_b, last_b)"
| "coverage_loop first_b last_b (r # reads) =
     (case get_covered_range r of (x0, x1) \<Rightarrow>
        coverage_loop (if x0 < first_b then x0 else first_b)
                      (if x1 > last_b then x1 else last_b) reads)"

definition coverage :: "read list \<Rightarrow> int \<times> int" where
  "coverage reads =
     (case reads of
        [] \<Rightarrow> (0, 0)
      | r # rest \<Rightarrow>
          (case get_covered_range r of (first_b, last_b) \<Rightarrow> coverage_loop first_b last_b rest))"

text \<open>
  \<^verbatim>\<open>in_features\<close>: the loop over the features returns as soon as it breaks, with the
  value \<^verbatim>\<open>overlap\<close> has then.
\<close>

fun in_features_loop :: "int \<Rightarrow> int \<Rightarrow> feature list \<Rightarrow> bool" where
  "in_features_loop r0 r1 [] = False"
| "in_features_loop r0 r1 (f # features) =
     (if (start f \<le> r0 \<and> r0 \<le> f_end f) \<or> (start f \<le> r1 \<and> r1 \<le> f_end f) then True
      else if start f > r1 then False
      else in_features_loop r0 r1 features)"

definition in_features :: "read list \<Rightarrow> feature list \<Rightarrow> bool" where
  "in_features reads features =
     (case coverage reads of (r0, r1) \<Rightarrow> in_features_loop r0 r1 features)"

text \<open>A feature with the given start and end; used in examples.\<close>

definition span_feature :: "int \<Rightarrow> int \<Rightarrow> feature" where
  "span_feature s e =
     \<lparr>sequence = ''1'', source = ''src'', f_type = ''gene'', start = s, f_end = e,
      score = None, strand = None, frame = None, attribute = None\<rparr>"

section \<open>CIGAR strings\<close>

text \<open>
  Characters are compared by their code. \<^verbatim>\<open>\d\<close> is modelled on the ASCII digits.
\<close>

definition is_digit :: "char \<Rightarrow> bool" where
  "is_digit c = (48 \<le> (of_char c :: nat) \<and> (of_char c :: nat) \<le> 57)"

definition digit_val :: "char \<Rightarrow> nat" where
  "digit_val c = of_char c - 48"

definition digit_char :: "nat \<Rightarrow> char" where
  "digit_char n = char_of (48 + n)"

text \<open>
  \<^verbatim>\<open>re.findall(r'(\d+)(\D)', cigar)\<close> scans from the left for a maximal run of digits
  followed by one character that is not a digit, and resumes after that character. A
  run of digits at the end of the string matches nothing, and a character that is not
  a digit and follows no digit is skipped. The first argument is the run of digits read
  so far.
\<close>

fun findall_tokens :: "string \<Rightarrow> string \<Rightarrow> (string \<times> char) list" where
  "findall_tokens digits [] = []"
| "findall_tokens digits (c # cs) =
     (if is_digit c then findall_tokens (digits @ [c]) cs
      else if digits = [] then findall_tokens [] cs
      else (digits, c) # findall_tokens [] cs)"

text \<open>\<^verbatim>\<open>int(a)\<close> on a string of digits.\<close>

definition int_of_digits :: "string \<Rightarrow> int" where
  "int_of_digits ds = foldl (\<lambda>acc d. 10 * acc + int (digit_val d)) 0 ds"

definition read_cigar :: "string \<Rightarrow> cigar" where
  "read_cigar s = map (\<lambda>(a, b). (int_of_digits a, b)) (findall_tokens [] s)"

text \<open>\<^verbatim>\<open>str\<close> on an integer.\<close>

fun str_nat :: "nat \<Rightarrow> string" where
  "str_nat n = (if n < 10 then [digit_char n] else str_nat (n div 10) @ [digit_char (n mod 10)])"

declare str_nat.simps [simp del]

definition str_int :: "int \<Rightarrow> string" where
  "str_int n = (if n < 0 then CHR ''-'' # str_nat (nat (- n)) else str_nat (nat n))"

text \<open>
  \<^verbatim>\<open>print_cigar\<close> joins \<^verbatim>\<open>str(char)\<close> over the flattened list of pairs: the
  length as a decimal numeral, then the operator.
\<close>

definition print_cigar :: "cigar \<Rightarrow> string" where
  "print_cigar c =
     (if c = [] then ''*'' else concat (map (\<lambda>(n, op). str_int n @ [op]) c))"

text \<open>
  Well-formed operation strings in canonical form: a non-empty sequence of tokens, each
  a decimal numeral without leading zeros followed by one character that is not a
  digit. \<open>operation_string\<close> writes the tokens one after the other.
\<close>

definition canonical_number :: "string \<Rightarrow> bool" where
  "canonical_number ds \<longleftrightarrow>
     ds \<noteq> [] \<and> list_all is_digit ds \<and> (ds = ''0'' \<or> hd ds \<noteq> CHR ''0'')"

definition well_formed_tokens :: "(string \<times> char) list \<Rightarrow> bool" where
  "well_formed_tokens ts \<longleftrightarrow>
     ts \<noteq> [] \<and> list_all (\<lambda>(ds, op). canonical_number ds \<and> \<not> is_digit op) ts"

definition operation_string :: "(string \<times> char) list \<Rightarrow> string" where
  "operation_string ts = concat (map (\<lambda>(ds, op). ds @ [op]) ts)"

section \<open>Indel normalisation\<close>

text \<open>\<^verbatim>\<open>convert_indecies\<close>; the first argument of the loop is the local \<^verbatim>\<open>index\<close>.\<close>

fun convert_indecies_loop :: "int \<Rightarrow> cigar \<Rightarrow> (int \<times> int \<times> char) list" where
  "convert_indecies_loop index [] = []"
| "convert_indecies_loop index ((i, op) # rest) =
     (index, i, op) # convert_indecies_loop (index + i) rest"

definition convert_indecies :: "cigar \<Rightarrow> (int \<times> int \<times> char) list" where
  "convert_indecies c = convert_indecies_loop 0 c"

text \<open>A stripped read is the triple of the sequence, the cigar and the position.\<close>

type_synonym stripped_read = "string \<times> cigar \<times> int"

text \<open>
  \<^verbatim>\<open>make_dot_queue\<close>; the second argument of the loop is the local \<^verbatim>\<open>queue\<close>. A read
  of the list counts as the stripped read itself when it has the same sequence and the
  same position; \<^verbatim>\<open>o in "ND"\<close> holds for the operators \<open>N\<close> and \<open>D\<close>.
\<close>

fun make_dot_queue_loop ::
  "stripped_read \<Rightarrow> (int \<times> int) list \<Rightarrow> stripped_read list \<Rightarrow> (int \<times> int) list" where
  "make_dot_queue_loop sr queue [] = queue"
| "make_dot_queue_loop (s_seq, s_cigar, s_pos) queue ((sq, cg, ps) # rest) =
     (let c_cigar = convert_indecies cg;
          offset = ps - s_pos
      in if sq = s_seq \<and> ps = s_pos
         then make_dot_queue_loop (s_seq, s_cigar, s_pos)
                (queue @ map (\<lambda>(i, n, op). (i, n))
                           (filter (\<lambda>(i, n, op). op \<in> set ''ND'') c_cigar)) rest
         else make_dot_queue_loop (s_seq, s_cigar, s_pos)
                (queue @ map (\<lambda>(i, n, op). (i + offset, n))
                           (filter (\<lambda>(i, n, op). op = CHR ''I'') c_cigar)) rest)"

definition make_dot_queue :: "stripped_read \<Rightarrow> stripped_read list \<Rightarrow> (int \<times> int) list" where
  "make_dot_queue stripped_read stripped_read_list =
     make_dot_queue_loop stripped_read [] stripped_read_list"

text \<open>
  The gap-insert queue as the specification words it, for comparison with
  \<open>make_dot_queue\<close>: the deletion offsets of the read itself (kind \<open>D\<close>), then the
  insertion offsets (kind \<open>I\<close>) of every other read of the group, translated by the
  difference of the positions.
\<close>

definition deletion_offsets :: "cigar \<Rightarrow> (int \<times> int) list" where
  "deletion_offsets cg =
     map (\<lambda>(i, n, op). (i, n)) (filter (\<lambda>(i, n, op). op = CHR ''D'') (convert_indecies cg))"

definition insertion_offsets :: "cigar \<Rightarrow> (int \<times> int) list" where
  "insertion_offsets cg =
     map (\<lambda>(i, n, op). (i, n)) (filter (\<lambda>(i, n, op). op = CHR ''I'') (convert_indecies cg))"

definition spec_gap_insert_queue ::
  "stripped_read \<Rightarrow> stripped_read list \<Rightarrow> (int \<times> int) list" where
  "spec_gap_insert_queue r srs =
     (case r of (r_seq, r_cigar, r_pos) \<Rightarrow>
        deletion_offsets r_cigar @
        concat (map (\<lambda>(sq, cg, ps). map (\<lambda>(i, n). (i + (ps - r_pos), n)) (insertion_offsets cg))
                    (remove1 r srs)))"

text \<open>
  The two kinds of block found in the queue that \<open>make_dot_queue\<close> builds for a read at
  position \<open>r_pos\<close>: the offsets of its own skipped regions and deletions (kind \<open>N\<close> or
  \<open>D\<close>), and the insertion offsets of another read, translated by the difference of
  the positions.
\<close>

definition skip_deletion_offsets :: "cigar \<Rightarrow> (int \<times> int) list" where
  "skip_deletion_offsets cg =
     map (\<lambda>(i, n, op). (i, n))
       (filter (\<lambda>(i, n, op). op = CHR ''N'' \<or> op = CHR ''D'') (convert_indecies cg))"

definition translated_insertion_offsets :: "int \<Rightarrow> stripped_read \<Rightarrow> (int \<times> int) list" where
  "translated_insertion_offsets r_pos other =
     (case other of (sq, cg, ps) \<Rightarrow>
        map (\<lambda>(i, n). (i + (ps - r_pos), n)) (insertion_offsets cg))"

text \<open>
  The index at which the slices \<^verbatim>\<open>seq[:i]\<close> and \<^verbatim>\<open>seq[i:]\<close> cut a sequence: a
  negative \<^verbatim>\<open>i\<close> counts from the end, and the result is clamped to the sequence
  (\<open>nat\<close> clamps below, \<open>take\<close> and \<open>drop\<close> above).
\<close>

definition slice_index :: "int \<Rightarrow> string \<Rightarrow> nat" where
  "slice_index i s = nat (if i < 0 then int (length s) + i else i)"

text \<open>
  \<^verbatim>\<open>dot_from_queue\<close>: \<^verbatim>\<open>seq = seq[:i] + ('.' * n) + seq[i:]\<close> for each entry of the
  queue in turn; \<^verbatim>\<open>'.' * n\<close> is empty for \<^verbatim>\<open>n <= 0\<close>.
\<close>

fun dot_from_queue_loop :: "string \<Rightarrow> (int \<times> int) list \<Rightarrow> string" where
  "dot_from_queue_loop s [] = s"
| "dot_from_queue_loop s ((i, n) # queue) =
     dot_from_queue_loop
       (take (slice_index i s) s @ replicate (nat n) CHR ''.'' @ drop (slice_index i s) s) queue"

definition dot_from_queue :: "stripped_read \<Rightarrow> (int \<times> int) list \<Rightarrow> string" where
  "dot_from_queue stripped_read queue =
     (case stripped_read of (s, c, p) \<Rightarrow> dot_from_queue_loop s queue)"

text \<open>\<^verbatim>\<open>dot_indels\<close>; the zip of the three lists is the list of triples.\<close>

definition dot_indels :: "read list \<Rightarrow> stripped_read list" where
  "dot_indels reads =
     (let stripped_reads = map (\<lambda>r. (seq r, cigar r, pos r)) reads;
          dotted_reads = map (\<lambda>sr. dot_from_queue sr (make_dot_queue sr stripped_reads))
                             stripped_reads;
          cigars = map (\<lambda>(s, c, p). c) stripped_reads;
          positions = map (\<lambda>(s, c, p). p) stripped_reads
      in zip dotted_reads (zip cigars positions))"

section \<open>Majority vote\<close>

text \<open>
  \<^verbatim>\<open>nucleotides.count(i) / len(nucleotides)\<close> is Python's true division of two
  integers: the quotient rounded to the nearest double, ties to even. A double is
  modelled by the rational number it denotes. \<open>round_half_even\<close> rounds to the nearest
  integer, \<open>pow2\<close> is a power of two with an integer exponent, and \<open>floor_log2 a b\<close>
  is the exponent \<open>e\<close> with \<open>2 ^ e \<le> a / b < 2 ^ (e + 1)\<close> for positive \<open>a\<close> and \<open>b\<close>.
  The quotient is rounded to 53 significant bits, to a multiple of \<open>2 ^ (- 1074)\<close> in
  the subnormal range, and a result of \<open>2 ^ 1024\<close> or more is an \<^verbatim>\<open>OverflowError\<close>.
\<close>

definition round_half_even :: "rat \<Rightarrow> int" where
  "round_half_even x =
     (let f = \<lfloor>x\<rfloor>; d = x - of_int f
      in if d < 1 / 2 then f else if 1 / 2 < d then f + 1 else if even f then f else f + 1)"

definition pow2 :: "int \<Rightarrow> rat" where
  "pow2 k = (if 0 \<le> k then 2 ^ nat k else 1 / 2 ^ nat (- k))"

definition floor_log2 :: "nat \<Rightarrow> nat \<Rightarrow> int" where
  "floor_log2 a b =
     (let d = bitlen (int a) - bitlen (int b)
      in if pow2 d \<le> of_nat a / of_nat b then d else d - 1)"

definition truediv :: "nat \<Rightarrow> nat \<Rightarrow> error + rat" where
  "truediv a b =
     (if b = 0 then Inl ZeroDivisionError
      else if a = 0 then Inr 0
      else let q = of_nat a / of_nat b;
               p = max (floor_log2 a b - 52) (- 1074);
               f = of_int (round_half_even (q / pow2 p)) * pow2 p
           in if pow2 1024 \<le> f then Inl OverflowError else Inr f)"

text \<open>
  \<^verbatim>\<open>majority\<close>: the \<^verbatim>\<open>for\<close> loop with its \<^verbatim>\<open>else\<close> branch. The nucleotides are
  strings; the cutoff is a finite number. The last argument of the loop is the part of
  \<^verbatim>\<open>nucleotides\<close> still to scan.
\<close>

fun majority_loop :: "string list \<Rightarrow> rat \<Rightarrow> string list \<Rightarrow> error + string" where
  "majority_loop nucleotides cutoff [] = Inr ''N''"
| "majority_loop nucleotides cutoff (i # rest) =
     (case truediv (count_list nucleotides i) (length nucleotides) of
        Inl e \<Rightarrow> Inl e
      | Inr f \<Rightarrow> if cutoff < f then Inr i else majority_loop nucleotides cutoff rest)"

definition majority :: "string list \<Rightarrow> rat \<Rightarrow> error + string" where
  "majority nucleotides cutoff = majority_loop nucleotides cutoff nucleotides"

text \<open>
  The test of the loop: the frequency of \<open>i\<close> among the nucleotides is above the cutoff.
\<close>

definition above_cutoff :: "string list \<Rightarrow> rat \<Rightarrow> string \<Rightarrow> bool" where
  "above_cutoff nucleotides cutoff i =
     (case truediv (count_list nucleotides i) (length nucleotides) of
        Inl e \<Rightarrow> False
      | Inr f \<Rightarrow> cutoff < f)"

section \<open>Consensus\<close>

text \<open>
  The dictionary \<^verbatim>\<open>all_nucleotides\<close> is an association list in insertion order with
  one entry for each key. \<open>setdefault_append d k v\<close> is
  \<^verbatim>\<open>d.setdefault(k, []); d[k].append(v)\<close>.
\<close>

type_synonym nuc_dict = "(int \<times> string list) list"

definition setdefault_append :: "nuc_dict \<Rightarrow> int \<Rightarrow> string \<Rightarrow> nuc_dict" where
  "setdefault_append d k v =
     (case map_of d k of
        None \<Rightarrow> d @ [(k, [v])]
      | Some vs \<Rightarrow> map (\<lambda>(k', vs'). if k' = k then (k', vs' @ [v]) else (k', vs')) d)"

text \<open>The inner loop of \<^verbatim>\<open>consensus\<close>, over the nucleotides of one dotted read.\<close>

fun add_nucleotides :: "nuc_dict \<Rightarrow> int \<Rightarrow> string \<Rightarrow> nuc_dict" where
  "add_nucleotides d index [] = d"
| "add_nucleotides d index (nuc # rest) =
     add_nucleotides (setdefault_append d index [nuc]) (index + 1) rest"

text \<open>The outer loop, over the dotted reads; it raises at the first read at position 0.\<close>

fun collect_nucleotides :: "nuc_dict \<Rightarrow> stripped_read list \<Rightarrow> error + nuc_dict" where
  "collect_nucleotides d [] = Inr d"
| "collect_nucleotides d ((sq, cg, ps) # rest) =
     (if ps = 0 then Inl UnmappedReadError
      else collect_nucleotides (add_nucleotides d ps sq) rest)"

text \<open>
  The second loop, over the positions of the range; a position that is not a key of the
  dictionary (\<^verbatim>\<open>KeyError\<close>) gives \<open>N\<close>.
\<close>

fun call_positions :: "nuc_dict \<Rightarrow> rat \<Rightarrow> int list \<Rightarrow> error + string list" where
  "call_positions d cutoff [] = Inr []"
| "call_positions d cutoff (position # rest) =
     (case (case map_of d position of None \<Rightarrow> Inr ''N'' | Some ns \<Rightarrow> majority ns cutoff) of
        Inl e \<Rightarrow> Inl e
      | Inr n \<Rightarrow> (case call_positions d cutoff rest of
                   Inl e \<Rightarrow> Inl e
                 | Inr ns \<Rightarrow> Inr (n # ns)))"

text \<open>
  \<^verbatim>\<open>consensus\<close>. \<^verbatim>\<open>min\<close> and \<^verbatim>\<open>max\<close> of an empty dictionary raise
  \<^verbatim>\<open>ValueError\<close>; \<^verbatim>\<open>range(lo, hi + 1)\<close> is \<open>[lo..hi]\<close>; the default cutoff is
  \<open>1 / 2\<close>.
\<close>

definition consensus :: "read list \<Rightarrow> rat \<Rightarrow> error + string" where
  "consensus reads cutoff =
     (case collect_nucleotides [] (dot_indels reads) of
        Inl e \<Rightarrow> Inl e
      | Inr all_nucleotides \<Rightarrow>
          (case map fst all_nucleotides of
             [] \<Rightarrow> Inl ValueError
           | k # ks \<Rightarrow>
               (case call_positions all_nucleotides cutoff [fold min ks k..fold max ks k] of
                  Inl e \<Rightarrow> Inl e
                | Inr consensus_sequence \<Rightarrow>
                    Inr (filter (\<lambda>c. c \<noteq> CHR ''.'') (concat consensus_sequence)))))"

text \<open>A read with the given position, cigar and sequence; used in examples.\<close>

definition mk_read :: "int \<Rightarrow> cigar \<Rightarrow> string \<Rightarrow> read" where
  "mk_read p c s =
     \<lparr>qname = ''r'', flag = 0, rname = ''1'', pos = p, mapq = 0, cigar = c,
      rnext = ''*'', pnext = 0, tlen = 0, seq = s, qual = replicate (length s) CHR ''H'',
      tags = []\<rparr>"

section \<open>Overlap is not symmetric\<close>

lemma get_covered_range_match_read:
  "get_covered_range (match_read p n) = (p, p + n - 1)"
  by (simp add: get_covered_range_def match_read_def)

text \<open>
  C1. The claim is that \<open>overlaps a b = overlaps b a\<close> for reads with valid covered
  ranges. The code does not satisfy it: for a read covering \<open>(1, 5)\<close> and a read covering
  \<open>(10, 20)\<close>, both mapped and with first base at most last base, \<open>overlaps\<close> is false
  in one order and true in the other, because the second disjunct compares \<open>y1\<close> with
  \<open>x1\<close> only. The two reads have no base in common.
\<close>

theorem overlaps_asymmetric_at_disjoint_reads:
  "get_covered_range (match_read 1 5) = (1, 5) \<and>
   get_covered_range (match_read 10 11) = (10, 20) \<and>
   pos (match_read 1 5) \<noteq> 0 \<and> pos (match_read 10 11) \<noteq> 0 \<and>
   overlaps (match_read 1 5) (match_read 10 11) = False \<and>
   overlaps (match_read 10 11) (match_read 1 5) = True"
  by (simp add: overlaps_def get_covered_range_match_read) (simp add: match_read_def)

section \<open>Expressed loci\<close>

lemma concat_expressed_loci_loop:
  "concat (expressed_loci_loop locus reads) = locus @ reads"
  by (induction reads arbitrary: locus) simp_all

lemma expressed_loci_loop_nonempty: "expressed_loci_loop locus reads \<noteq> []"
  by (induction reads arbitrary: locus) simp_all

lemma expressed_loci_loop_snoc:
  "expressed_loci_loop locus (reads @ [r]) =
     (let gs = expressed_loci_loop locus reads; g = last gs
      in if g = [] \<or> overlaps (last g) r then butlast gs @ [g @ [r]] else gs @ [[r]])"
proof (induction reads arbitrary: locus)
  case Nil
  show ?case by simp
next
  case (Cons x reads)
  show ?case
  proof (cases "locus = [] \<or> overlaps (last locus) x")
    case True
    then show ?thesis
      using Cons.IH [of "locus @ [x]"] by simp
  next
    case False
    then show ?thesis
      using Cons.IH [of "[x]"] expressed_loci_loop_nonempty [of "[x]" reads]
      by (simp add: Let_def)
  qed
qed

text \<open>
  C6. Grouping is by chained adjacency. The empty stream yields the one, empty, current
  group; feeding one more read \<open>r\<close> after \<open>reads\<close> either extends the last group yielded
  for \<open>reads\<close> (exactly when that group is empty or its last read overlaps \<open>r\<close>) or
  leaves the groups as they are and adds the new group \<open>[r]\<close>; the last group is always
  yielded, so the result is never empty. Four reads with covered ranges \<open>(1, 5)\<close>,
  \<open>(3, 7)\<close>, \<open>(13, 17)\<close>, \<open>(14, 18)\<close> yield the first two and the last two reads.
\<close>

theorem expressed_loci_chained_adjacency:
  "expressed_loci [] = [[]] \<and>
   expressed_loci (reads @ [r]) =
     (let gs = expressed_loci reads; g = last gs
      in if g = [] \<or> overlaps (last g) r then butlast gs @ [g @ [r]] else gs @ [[r]]) \<and>
   expressed_loci reads \<noteq> [] \<and>
   (get_covered_range r1 = (1, 5) \<and> get_covered_range r2 = (3, 7) \<and>
    get_covered_range r3 = (13, 17) \<and> get_covered_range r4 = (14, 18)
    \<longrightarrow> expressed_loci [r1, r2, r3, r4] = [[r1, r2], [r3, r4]])"
  unfolding expressed_loci_def
  by (intro conjI impI expressed_loci_loop_snoc expressed_loci_loop_nonempty)
     (simp_all add: overlaps_def)

theorem expressed_loci_chained_adjacency_witness:
  "get_covered_range (match_read 1 5) = (1, 5) \<and>
   get_covered_range (match_read 3 5) = (3, 7) \<and>
   get_covered_range (match_read 13 5) = (13, 17) \<and>
   get_covered_range (match_read 14 5) = (14, 18) \<and>
   expressed_loci [match_read 1 5, match_read 3 5, match_read 13 5, match_read 14 5] =
     [[match_read 1 5, match_read 3 5], [match_read 13 5, match_read 14 5]] \<and>
   expressed_loci ([match_read 1 5] @ [match_read 3 5]) = [[match_read 1 5, match_read 3 5]]"
  using expressed_loci_chained_adjacency
    [of "[match_read 1 5]" "match_read 3 5"
        "match_read 1 5" "match_read 3 5" "match_read 13 5" "match_read 14 5"]
  by (simp add: get_covered_range_match_read expressed_loci_def overlaps_def)

text \<open>
  C7. Concatenating the groups yielded by \<open>expressed_loci\<close>, in yield order, gives back
  the input stream: for every finite stream, sorted by position or not.
\<close>

theorem expressed_loci_concat: "concat (expressed_loci reads) = reads"
  by (simp add: expressed_loci_def concat_expressed_loci_loop)

section \<open>Feature matching\<close>

text \<open>
  C4. The claim is that \<open>in_features\<close> is true exactly when the coverage interval of
  the reads meets the interval of some feature. The code tests the two end points of
  the coverage only, so it misses a feature that lies strictly inside the coverage: one
  read covering \<open>(1, 10)\<close> and the feature \<open>[3, 5]\<close> share the bases 3 to 5, and
  \<open>in_features\<close> is false.
\<close>

theorem in_features_misses_contained_feature:
  "coverage [match_read 1 10] = (1, 10) \<and>
   get_covered_range (match_read 1 10) = (1, 10) \<and>
   start (span_feature 3 5) = 3 \<and> f_end (span_feature 3 5) = 5 \<and>
   in_features [match_read 1 10] [span_feature 3 5] = False"
  by (simp add: in_features_def coverage_def get_covered_range_match_read span_feature_def)

section \<open>The gap-insert queue\<close>

lemma convert_indecies_loop_map:
  "convert_indecies_loop index cg =
     map (\<lambda>k. (index + sum_list (map fst (take k cg)), cg ! k)) [0..<length cg]"
proof (induction index cg rule: convert_indecies_loop.induct)
  case (1 index)
  show ?case by simp
next
  case (2 index i op rest)
  have "[0..<length ((i, op) # rest)] = 0 # map Suc [0..<length rest]"
    by (simp add: upt_conv_Cons map_Suc_upt del: upt_Suc)
  then show ?case using 2 by (simp add: o_def add.assoc del: upt_Suc)
qed

text \<open>
  C3, as the claim states it, fails: a read whose cigar has a skipped region (kind
  \<open>N\<close>) and no deletion gets a queue entry for the skipped region, which is neither a
  deletion offset of its own nor an insertion offset of another read.
\<close>

theorem make_dot_queue_holds_skipped_region:
  "set (make_dot_queue (''ACGT'', [(2, CHR ''M''), (3, CHR ''N''), (2, CHR ''M'')], 1)
         [(''ACGT'', [(2, CHR ''M''), (3, CHR ''N''), (2, CHR ''M'')], 1)])
   \<noteq> set (spec_gap_insert_queue (''ACGT'', [(2, CHR ''M''), (3, CHR ''N''), (2, CHR ''M'')], 1)
         [(''ACGT'', [(2, CHR ''M''), (3, CHR ''N''), (2, CHR ''M'')], 1)])"
  by (simp add: make_dot_queue_def spec_gap_insert_queue_def deletion_offsets_def
      convert_indecies_def)

lemma make_dot_queue_loop_others:
  "\<forall>other\<in>set srs. \<not> (fst other = s_seq \<and> snd (snd other) = s_pos) \<Longrightarrow>
   make_dot_queue_loop (s_seq, s_cigar, s_pos) queue srs =
     queue @ concat (map (translated_insertion_offsets s_pos) srs)"
proof (induction srs arbitrary: queue)
  case Nil
  show ?case by simp
next
  case (Cons other srs)
  obtain sq cg ps where other: "other = (sq, cg, ps)" by (cases other)
  have diff: "\<not> (sq = s_seq \<and> ps = s_pos)" using Cons.prems by (simp add: other)
  have rest: "\<forall>other\<in>set srs. \<not> (fst other = s_seq \<and> snd (snd other) = s_pos)"
    using Cons.prems by simp
  show ?case
    using diff Cons.IH [OF rest]
    by (auto simp: other Let_def translated_insertion_offsets_def insertion_offsets_def
        split_def o_def)
qed

lemma make_dot_queue_loop_append:
  "make_dot_queue_loop sr queue (xs @ ys) =
     make_dot_queue_loop sr (make_dot_queue_loop sr queue xs) ys"
proof (induction xs arbitrary: queue)
  case Nil
  show ?case by simp
next
  case (Cons x xs)
  obtain s_seq s_cigar s_pos where sr: "sr = (s_seq, s_cigar, s_pos)" by (cases sr)
  obtain sq cg ps where x: "x = (sq, cg, ps)" by (cases x)
  show ?case using Cons.IH by (simp add: sr x Let_def)
qed

lemma make_dot_queue_loop_own:
  "make_dot_queue_loop (s_seq, s_cigar, s_pos) queue ((s_seq, s_cigar, s_pos) # rest) =
     make_dot_queue_loop (s_seq, s_cigar, s_pos) (queue @ skip_deletion_offsets s_cigar) rest"
proof -
  have "(\<lambda>(i, n, op). op \<in> set ''ND'') = (\<lambda>(i, n, op). op = CHR ''N'' \<or> op = CHR ''D'')"
    by (simp add: fun_eq_iff)
  then show ?thesis by (simp add: Let_def skip_deletion_offsets_def)
qed

text \<open>
  C3, amended. Take a group in which no read other than \<open>r\<close> has both the sequence and
  the position of \<open>r\<close>. The queue built for \<open>r\<close> consists exactly of the offsets
  \<open>(index, length)\<close> of its own skipped regions and deletions (the entries of its
  index-converted operation list whose kind is \<open>N\<close> or \<open>D\<close>) and, for every other read
  of the group, of the insertion offsets of that read (kind \<open>I\<close>), each translated by the
  difference of the two positions; the blocks come in the order of the group, and nothing
  else is in the queue. The index of the \<open>k\<close>-th entry of the index-converted list is the
  sum of the lengths of the operations before it.
\<close>

theorem make_dot_queue_own_and_others:
  assumes "\<forall>other\<in>set pre \<union> set post. \<not> (fst other = s_seq \<and> snd (snd other) = s_pos)"
  shows "make_dot_queue (s_seq, s_cigar, s_pos) (pre @ (s_seq, s_cigar, s_pos) # post) =
           concat (map (translated_insertion_offsets s_pos) pre) @
           skip_deletion_offsets s_cigar @
           concat (map (translated_insertion_offsets s_pos) post) \<and>
         convert_indecies cg =
           map (\<lambda>k. (sum_list (map fst (take k cg)), cg ! k)) [0..<length cg]"
proof
  have pre: "\<forall>other\<in>set pre. \<not> (fst other = s_seq \<and> snd (snd other) = s_pos)"
    and post: "\<forall>other\<in>set post. \<not> (fst other = s_seq \<and> snd (snd other) = s_pos)"
    using assms by blast+
  show "make_dot_queue (s_seq, s_cigar, s_pos) (pre @ (s_seq, s_cigar, s_pos) # post) =
           concat (map (translated_insertion_offsets s_pos) pre) @
           skip_deletion_offsets s_cigar @
           concat (map (translated_insertion_offsets s_pos) post)"
    unfolding make_dot_queue_def make_dot_queue_loop_append
      make_dot_queue_loop_others [OF pre] make_dot_queue_loop_own
      make_dot_queue_loop_others [OF post]
    by simp
  show "convert_indecies cg =
           map (\<lambda>k. (sum_list (map fst (take k cg)), cg ! k)) [0..<length cg]"
    by (simp add: convert_indecies_def convert_indecies_loop_map)
qed

theorem make_dot_queue_own_and_others_witness:
  "''ACGGT'' \<noteq> ''ACGT'' \<and>
   make_dot_queue (''ACGT'', [(2, CHR ''M''), (1, CHR ''D''), (2, CHR ''M'')], 5)
     [(''ACGGT'', [(2, CHR ''M''), (1, CHR ''I''), (2, CHR ''M'')], 3),
      (''ACGT'', [(2, CHR ''M''), (1, CHR ''D''), (2, CHR ''M'')], 5),
      (''AC'', [(1, CHR ''I''), (1, CHR ''M'')], 7)]
   = [(0, 1), (2, 1), (2, 1)]"
  using make_dot_queue_own_and_others
    [of "[(''ACGGT'', [(2, CHR ''M''), (1, CHR ''I''), (2, CHR ''M'')], 3)]"
        "[(''AC'', [(1, CHR ''I''), (1, CHR ''M'')], 7)]"
        "''ACGT''" 5 "[(2, CHR ''M''), (1, CHR ''D''), (2, CHR ''M'')]" "[]"]
  by (simp add: translated_insertion_offsets_def insertion_offsets_def skip_deletion_offsets_def
      convert_indecies_def)

section \<open>Consensus and unmapped reads\<close>

lemma map_snd_snd_zip:
  "length xs = length zs \<Longrightarrow> length ys = length zs \<Longrightarrow>
   map (\<lambda>t. snd (snd t)) (zip xs (zip ys zs)) = zs"
proof -
  assume len: "length xs = length zs" "length ys = length zs"
  have "map (\<lambda>t. snd (snd t)) (zip xs (zip ys zs)) = map snd (map snd (zip xs (zip ys zs)))"
    by simp
  also have "\<dots> = map snd (zip ys zs)" using len by (simp only: map_snd_zip length_zip min.idem)
  also have "\<dots> = zs" using len by (simp only: map_snd_zip)
  finally show ?thesis .
qed

lemma dot_indels_positions: "map (\<lambda>sr. snd (snd sr)) (dot_indels reads) = map pos reads"
  unfolding dot_indels_def Let_def
  by (subst map_snd_snd_zip) (simp_all add: split_def o_def)

lemma dot_indels_position_set:
  "(\<exists>sr\<in>set (dot_indels reads). snd (snd sr) = 0) \<longleftrightarrow> (\<exists>r\<in>set reads. pos r = 0)"
proof -
  have "set (map (\<lambda>sr. snd (snd sr)) (dot_indels reads)) = set (map pos reads)"
    by (simp only: dot_indels_positions)
  then have "(\<lambda>sr. snd (snd sr)) ` set (dot_indels reads) = pos ` set reads"
    by simp
  then show ?thesis by (metis (mono_tags, lifting) image_iff)
qed

lemma collect_nucleotides_unmapped:
  "\<exists>sr\<in>set srs. snd (snd sr) = 0 \<Longrightarrow> collect_nucleotides d srs = Inl UnmappedReadError"
  by (induction d srs rule: collect_nucleotides.induct) auto

lemma collect_nucleotides_mapped:
  "\<forall>sr\<in>set srs. snd (snd sr) \<noteq> 0 \<Longrightarrow> \<exists>d'. collect_nucleotides d srs = Inr d'"
  by (induction d srs rule: collect_nucleotides.induct) auto

lemma truediv_not_unmapped: "truediv a b \<noteq> Inl UnmappedReadError"
  by (simp add: truediv_def Let_def)

lemma majority_loop_not_unmapped: "majority_loop ns cutoff rest \<noteq> Inl UnmappedReadError"
  using truediv_not_unmapped
  by (induction rest) (auto split: sum.splits)

lemma call_positions_not_unmapped: "call_positions d cutoff ps \<noteq> Inl UnmappedReadError"
  using majority_loop_not_unmapped
  by (induction ps) (auto split: sum.splits option.splits simp: majority_def)

lemma consensus_unmapped_iff:
  "consensus reads cutoff = Inl UnmappedReadError \<longleftrightarrow> (\<exists>r\<in>set reads. pos r = 0)"
proof
  assume "\<exists>r\<in>set reads. pos r = 0"
  then have "\<exists>sr\<in>set (dot_indels reads). snd (snd sr) = 0"
    by (simp add: dot_indels_position_set)
  then show "consensus reads cutoff = Inl UnmappedReadError"
    by (simp add: consensus_def collect_nucleotides_unmapped)
next
  assume raised: "consensus reads cutoff = Inl UnmappedReadError"
  show "\<exists>r\<in>set reads. pos r = 0"
  proof (rule ccontr)
    assume "\<not> (\<exists>r\<in>set reads. pos r = 0)"
    then have "\<not> (\<exists>sr\<in>set (dot_indels reads). snd (snd sr) = 0)"
      by (simp add: dot_indels_position_set)
    then have "\<forall>sr\<in>set (dot_indels reads). snd (snd sr) \<noteq> 0" by blast
    then obtain d where "collect_nucleotides [] (dot_indels reads) = Inr d"
      using collect_nucleotides_mapped by blast
    with raised show False
      using call_positions_not_unmapped
      by (auto simp: consensus_def split: list.splits sum.splits)
  qed
qed

text \<open>
  C2. For a non-empty collection of reads, \<open>consensus\<close> raises \<open>UnmappedReadError\<close>,
  and so returns no sequence, when some read has position 0; when no read has position
  0 it does not raise \<open>UnmappedReadError\<close>.
\<close>

theorem consensus_unmapped_read_error:
  "reads \<noteq> [] \<Longrightarrow>
   ((\<exists>r\<in>set reads. pos r = 0) \<longrightarrow> consensus reads cutoff = Inl UnmappedReadError) \<and>
   ((\<forall>r\<in>set reads. pos r \<noteq> 0) \<longrightarrow> consensus reads cutoff \<noteq> Inl UnmappedReadError)"
  by (simp add: consensus_unmapped_iff)

theorem consensus_unmapped_read_error_witness:
  "pos (mk_read 0 [] ''G'') = 0 \<and>
   consensus [mk_read 1 [] ''AC'', mk_read 0 [] ''G''] (1 / 2) = Inl UnmappedReadError \<and>
   pos (mk_read 1 [] ''AC'') \<noteq> 0 \<and>
   consensus [mk_read 1 [] ''AC''] (1 / 2) \<noteq> Inl UnmappedReadError"
  using consensus_unmapped_read_error [of "[mk_read 1 [] ''AC'', mk_read 0 [] ''G'']" "1 / 2"]
        consensus_unmapped_read_error [of "[mk_read 1 [] ''AC'']" "1 / 2"]
  by (simp add: mk_read_def)

text \<open>
  C10. On the empty collection the dictionary of nucleotides stays empty, and
  \<open>consensus\<close> fails with the \<open>ValueError\<close> of \<^verbatim>\<open>min\<close> on an empty dictionary: it
  returns no sequence and does not raise \<open>UnmappedReadError\<close>.
\<close>

theorem consensus_empty_collection:
  "collect_nucleotides [] (dot_indels []) = Inr [] \<and>
   consensus [] cutoff = Inl ValueError \<and>
   consensus [] cutoff \<noteq> Inl UnmappedReadError \<and>
   (\<nexists>s. consensus [] cutoff = Inr s)"
  by (simp add: consensus_def dot_indels_def)

section \<open>Majority vote: the first base above the cutoff\<close>

lemma round_half_even_le:
  assumes "x \<le> of_int k"
  shows "round_half_even x \<le> k"
proof -
  have fl: "\<lfloor>x\<rfloor> \<le> k" using assms by (simp add: floor_le_iff)
  show ?thesis
  proof (cases "x - of_int \<lfloor>x\<rfloor> < 1 / 2")
    case True
    then show ?thesis using fl by (simp add: round_half_even_def Let_def)
  next
    case False
    then have "(of_int \<lfloor>x\<rfloor> :: rat) < of_int k" using assms by linarith
    then have "\<lfloor>x\<rfloor> < k" by (simp only: of_int_less_iff)
    then show ?thesis by (simp add: round_half_even_def Let_def)
  qed
qed

lemma bitlen_mono: "a \<le> b \<Longrightarrow> bitlen a \<le> bitlen b"
  by (simp add: bitlen_def floorlog_mono nat_mono)

lemma floor_log2_le: "a \<le> b \<Longrightarrow> floor_log2 a b \<le> 0"
  using bitlen_mono [of "int a" "int b"] by (simp add: floor_log2_def Let_def)

lemma truediv_le_one:
  assumes "0 < a" "a \<le> b"
  shows "\<exists>f. truediv a b = Inr f \<and> f \<le> 1"
proof -
  define p where "p = max (floor_log2 a b - 52) (- 1074)"
  define n where "n = nat (- p)"
  have p_neg: "p < 0" using floor_log2_le [OF assms(2)] by (simp add: p_def)
  then have pow: "pow2 p = 1 / 2 ^ n" by (simp add: pow2_def n_def)
  define q where "q = (of_nat a :: rat) / of_nat b"
  have "q \<le> 1" using assms by (simp add: q_def)
  then have "q * 2 ^ n \<le> 1 * 2 ^ n"
    by (intro mult_right_mono) simp_all
  then have "q / pow2 p \<le> of_int (2 ^ n)"
    by (simp add: pow)
  then have m: "round_half_even (q / pow2 p) \<le> 2 ^ n"
    by (rule round_half_even_le)
  have "(of_int (round_half_even (q / pow2 p)) :: rat) \<le> of_int (2 ^ n)"
    using m by (simp only: of_int_le_iff)
  then have "(of_int (round_half_even (q / pow2 p)) :: rat) \<le> 2 ^ n"
    by simp
  then have f: "of_int (round_half_even (q / pow2 p)) * pow2 p \<le> 1"
    by (simp add: pow divide_le_eq)
  have "\<not> pow2 1024 \<le> of_int (round_half_even (q / pow2 p)) * pow2 p"
  proof -
    have "(1::rat) < pow2 1024" by (simp add: pow2_def)
    with f show ?thesis by linarith
  qed
  with f show ?thesis
    using assms by (simp add: truediv_def Let_def p_def q_def)
qed

lemma truediv_one_one: "truediv 1 1 = Inr 1"
  by (simp add: truediv_def Let_def floor_log2_def pow2_def round_half_even_def)


lemma truediv_member:
  assumes "i \<in> set ns"
  shows "\<exists>f. truediv (count_list ns i) (length ns) = Inr f \<and> f \<le> 1"
proof -
  have "0 < count_list ns i" using assms count_list_0_iff [of ns i] by (cases "count_list ns i") simp_all
  moreover have "count_list ns i \<le> length ns" by (rule count_le_length)
  ultimately show ?thesis by (rule truediv_le_one)
qed

lemma majority_loop_step:
  assumes "i \<in> set ns"
  shows "majority_loop ns cutoff (i # rest) =
           (if above_cutoff ns cutoff i then Inr i else majority_loop ns cutoff rest)"
proof -
  obtain f where "truediv (count_list ns i) (length ns) = Inr f"
    using truediv_member [OF assms] by blast
  then show ?thesis by (simp add: above_cutoff_def)
qed

lemma majority_loop_none:
  "set rest \<subseteq> set ns \<Longrightarrow> \<forall>j\<in>set rest. \<not> above_cutoff ns cutoff j \<Longrightarrow>
   majority_loop ns cutoff rest = Inr ''N''"
proof (induction rest)
  case Nil
  show ?case by simp
next
  case (Cons j rest)
  then show ?case by (simp add: majority_loop_step del: majority_loop.simps)
qed

lemma majority_loop_first:
  "set pre \<subseteq> set ns \<Longrightarrow> i \<in> set ns \<Longrightarrow> above_cutoff ns cutoff i \<Longrightarrow>
   \<forall>j\<in>set pre. \<not> above_cutoff ns cutoff j \<Longrightarrow>
   majority_loop ns cutoff (pre @ i # post) = Inr i"
proof (induction pre)
  case Nil
  then show ?case by (simp add: majority_loop_step del: majority_loop.simps)
next
  case (Cons j pre)
  then show ?case by (simp add: majority_loop_step del: majority_loop.simps)
qed

text \<open>
  C5. On a non-empty list of bases the division of a count by the total never fails,
  and \<open>majority\<close> returns the first base, in the order of the list, whose count divided
  by the total is strictly above the cutoff; when no base is strictly above the cutoff
  (a tie at the cutoff included) it returns \<open>N\<close>.
\<close>

theorem majority_first_above_cutoff:
  assumes "nucleotides \<noteq> []"
  shows "(\<forall>i\<in>set nucleotides.
            \<exists>f. truediv (count_list nucleotides i) (length nucleotides) = Inr f) \<and>
         (nucleotides = pre @ i # post \<and> above_cutoff nucleotides cutoff i \<and>
            (\<forall>j\<in>set pre. \<not> above_cutoff nucleotides cutoff j)
          \<longrightarrow> majority nucleotides cutoff = Inr i) \<and>
         ((\<forall>j\<in>set nucleotides. \<not> above_cutoff nucleotides cutoff j)
          \<longrightarrow> majority nucleotides cutoff = Inr ''N'')"
proof (intro conjI impI ballI)
  fix j assume "j \<in> set nucleotides"
  from truediv_member [OF this]
  show "\<exists>f. truediv (count_list nucleotides j) (length nucleotides) = Inr f"
    by blast
next
  assume h: "nucleotides = pre @ i # post \<and> above_cutoff nucleotides cutoff i \<and>
            (\<forall>j\<in>set pre. \<not> above_cutoff nucleotides cutoff j)"
  then have eq: "nucleotides = pre @ i # post"
    and above: "above_cutoff nucleotides cutoff i"
    and before: "\<forall>j\<in>set pre. \<not> above_cutoff nucleotides cutoff j"
    by blast+
  have "set pre \<subseteq> set nucleotides" "i \<in> set nucleotides" using eq by auto
  then have "majority_loop nucleotides cutoff (pre @ i # post) = Inr i"
    using above before by (rule majority_loop_first)
  then show "majority nucleotides cutoff = Inr i"
    unfolding majority_def using eq by simp
next
  assume "\<forall>j\<in>set nucleotides. \<not> above_cutoff nucleotides cutoff j"
  then show "majority nucleotides cutoff = Inr ''N''"
    by (simp add: majority_def majority_loop_none)
qed

lemma truediv_quarters:
  "truediv 1 4 = Inr (1 / 4)" "truediv 3 4 = Inr (3 / 4)" "truediv 2 4 = Inr (1 / 2)"
  by (simp_all add: truediv_def Let_def floor_log2_def pow2_def round_half_even_def compute_bitlen)

lemma above_cutoff_examples:
  "above_cutoff [''C'', ''A'', ''A'', ''A''] (1 / 2) ''A''"
  "\<not> above_cutoff [''C'', ''A'', ''A'', ''A''] (1 / 2) ''C''"
  "\<not> above_cutoff [''C'', ''A'', ''C'', ''A''] (1 / 2) ''A''"
  "\<not> above_cutoff [''C'', ''A'', ''C'', ''A''] (1 / 2) ''C''"
proof -
  have c: "count_list [''C'', ''A'', ''A'', ''A''] ''A'' = 3"
    "count_list [''C'', ''A'', ''A'', ''A''] ''C'' = 1"
    "count_list [''C'', ''A'', ''C'', ''A''] ''A'' = 2"
    "count_list [''C'', ''A'', ''C'', ''A''] ''C'' = 2"
    by simp_all
  have l: "length [''C'', ''A'', ''A'', ''A''] = 4" "length [''C'', ''A'', ''C'', ''A''] = 4"
    by simp_all
  show "above_cutoff [''C'', ''A'', ''A'', ''A''] (1 / 2) ''A''"
    "\<not> above_cutoff [''C'', ''A'', ''A'', ''A''] (1 / 2) ''C''"
    "\<not> above_cutoff [''C'', ''A'', ''C'', ''A''] (1 / 2) ''A''"
    "\<not> above_cutoff [''C'', ''A'', ''C'', ''A''] (1 / 2) ''C''"
    unfolding above_cutoff_def c l truediv_quarters by simp_all
qed

theorem majority_first_above_cutoff_witness:
  "[''C'', ''A'', ''A'', ''A''] = [''C''] @ ''A'' # [''A'', ''A''] \<and>
   above_cutoff [''C'', ''A'', ''A'', ''A''] (1 / 2) ''A'' \<and>
   \<not> above_cutoff [''C'', ''A'', ''A'', ''A''] (1 / 2) ''C'' \<and>
   majority [''C'', ''A'', ''A'', ''A''] (1 / 2) = Inr ''A'' \<and>
   \<not> above_cutoff [''C'', ''A'', ''C'', ''A''] (1 / 2) ''C'' \<and>
   \<not> above_cutoff [''C'', ''A'', ''C'', ''A''] (1 / 2) ''A'' \<and>
   majority [''C'', ''A'', ''C'', ''A''] (1 / 2) = Inr ''N''"
  using majority_first_above_cutoff [of "[''C'', ''A'', ''A'', ''A'']" "[''C'']" "''A''" "[''A'', ''A'']" "1 / 2"]
        majority_first_above_cutoff [of "[''C'', ''A'', ''C'', ''A'']" "[]" "''A''" "[]" "1 / 2"]
        above_cutoff_examples
  by simp

section \<open>Consensus of a single read\<close>

lemma filter_dot_from_queue_loop:
  "filter (\<lambda>c. c \<noteq> CHR ''.'') (dot_from_queue_loop s queue) = filter (\<lambda>c. c \<noteq> CHR ''.'') s"
proof (induction s queue rule: dot_from_queue_loop.induct)
  case (1 s)
  show ?case by simp
next
  case (2 s i n queue)
  let ?P = "\<lambda>c. c \<noteq> CHR ''.''"
  let ?k = "slice_index i s"
  have "filter ?P (take ?k s @ replicate (nat n) CHR ''.'' @ drop ?k s)
        = filter ?P (take ?k s) @ filter ?P (drop ?k s)"
    by simp
  also have "\<dots> = filter ?P (take ?k s @ drop ?k s)"
    by (simp only: filter_append)
  also have "\<dots> = filter ?P s"
    by (simp only: append_take_drop_id)
  finally show ?case using 2 by (simp only: dot_from_queue_loop.simps)
qed

lemma dot_from_queue_loop_nonempty: "s \<noteq> [] \<Longrightarrow> dot_from_queue_loop s queue \<noteq> []"
proof (induction s queue rule: dot_from_queue_loop.induct)
  case (1 s)
  then show ?case by simp
next
  case (2 s i n queue)
  have "take (slice_index i s) s @ drop (slice_index i s) s \<noteq> []"
    using 2(2) by simp
  then have "take (slice_index i s) s @ replicate (nat n) CHR ''.'' @ drop (slice_index i s) s \<noteq> []"
    by auto
  then show ?case using 2(1) by simp
qed

lemma upt_Suc_shift: "[0..<Suc n] = 0 # map Suc [0..<n]"
  by (simp add: upt_conv_Cons map_Suc_upt del: upt_Suc)

lemma add_nucleotides_fresh:
  "\<forall>k\<in>fst ` set d. k < index \<Longrightarrow>
   add_nucleotides d index s =
     d @ zip (map (\<lambda>k. index + int k) [0..<length s]) (map (\<lambda>c. [[c]]) s)"
proof (induction s arbitrary: d index)
  case Nil
  show ?case by simp
next
  case (Cons nuc rest)
  have "index \<notin> fst ` set d" using Cons.prems by auto
  then have none: "map_of d index = None" by (simp add: map_of_eq_None_iff)
  have step: "setdefault_append d index [nuc] = d @ [(index, [[nuc]])]"
    by (simp add: setdefault_append_def none)
  have keys: "\<forall>k\<in>fst ` set (d @ [(index, [[nuc]])]). k < index + 1"
    using Cons.prems by auto
  have "add_nucleotides d index (nuc # rest) = add_nucleotides (d @ [(index, [[nuc]])]) (index + 1) rest"
    by (simp add: step)
  also have "\<dots> = (d @ [(index, [[nuc]])]) @
      zip (map (\<lambda>k. index + 1 + int k) [0..<length rest]) (map (\<lambda>c. [[c]]) rest)"
    using keys by (rule Cons.IH)
  also have "\<dots> = d @ zip (map (\<lambda>k. index + int k) [0..<length (nuc # rest)])
                          (map (\<lambda>c. [[c]]) (nuc # rest))"
    by (simp add: upt_Suc_shift o_def algebra_simps del: upt_Suc)
  finally show ?case .
qed

lemma upto_as_map: "[i..i + int n - 1] = map (\<lambda>k. i + int k) [0..<n]"
proof (induction n)
  case 0
  show ?case by simp
next
  case (Suc n)
  have "[i..i + int (Suc n) - 1] = [i..i + int n - 1] @ [i + int n]"
    using upto_rec2 [of i "i + int n"] by simp
  then show ?case using Suc by simp
qed

lemma truediv_Suc_0: "truediv (Suc 0) (Suc 0) = Inr 1"
  by (simp add: truediv_def Let_def floor_log2_def pow2_def round_half_even_def)

lemma majority_single: "majority [[c]] (1 / 2) = Inr [c]"
  by (simp add: majority_def truediv_Suc_0)

lemma call_positions_singletons:
  "\<forall>p\<in>set ps. \<exists>c. map_of d p = Some [[c]] \<Longrightarrow>
   call_positions d (1 / 2) ps = Inr (map (\<lambda>p. hd (the (map_of d p))) ps)"
proof (induction ps)
  case Nil
  show ?case by simp
next
  case (Cons p ps)
  then obtain c where "map_of d p = Some [[c]]" by auto
  then show ?case using Cons by (simp add: majority_single)
qed

lemma consensus_of_fresh_dictionary:
  assumes "s \<noteq> []"
  shows "(case map fst (zip (map (\<lambda>k. p + int k) [0..<length s]) (map (\<lambda>c. [[c]]) s)) of
            [] \<Rightarrow> Inl ValueError
          | k # ks \<Rightarrow>
              (case call_positions
                      (zip (map (\<lambda>k. p + int k) [0..<length s]) (map (\<lambda>c. [[c]]) s))
                      (1 / 2) [fold min ks k..fold max ks k] of
                 Inl e \<Rightarrow> Inl e
               | Inr consensus_sequence \<Rightarrow>
                   Inr (filter (\<lambda>c. c \<noteq> CHR ''.'') (concat consensus_sequence))))
         = Inr (filter (\<lambda>c. c \<noteq> CHR ''.'') s)"
proof -
  define n where "n = length s"
  define keys where "keys = map (\<lambda>k. p + int k) [0..<n]"
  define vals where "vals = map (\<lambda>c. [[c]]) s"
  define d where "d = zip keys vals"
  have n_pos: "0 < n" using assms by (simp add: n_def)
  have len: "length keys = n" "length vals = n" by (simp_all add: keys_def vals_def n_def)
  have fst_d: "map fst d = keys" by (simp add: d_def len)
  have dist: "distinct keys" by (simp add: keys_def distinct_map inj_on_def)
  have keys_ne: "keys \<noteq> []" using n_pos len by auto
  then obtain k ks where kks: "keys = k # ks" by (cases keys) auto
  have "Min (set keys) = p"
  proof (rule Min_eqI)
    show "finite (set keys)" by simp
    show "p \<le> y" if "y \<in> set keys" for y using that by (auto simp: keys_def)
    show "p \<in> set keys" using n_pos by (force simp: keys_def)
  qed
  then have lo: "fold min ks k = p" by (simp only: kks Min.set_eq_fold)
  have "Max (set keys) = p + int n - 1"
  proof (rule Max_eqI)
    show "finite (set keys)" by simp
    show "y \<le> p + int n - 1" if "y \<in> set keys" for y using that by (auto simp: keys_def)
    have "p + int (n - 1) \<in> set keys"
      using n_pos unfolding keys_def set_map by (intro image_eqI [where x = "n - 1"]) simp_all
    then show "p + int n - 1 \<in> set keys" using n_pos by (simp add: of_nat_diff algebra_simps)
  qed
  then have hi: "fold max ks k = p + int n - 1" by (simp only: kks Max.set_eq_fold)
  have range: "[fold min ks k..fold max ks k] = keys"
    by (simp add: lo hi keys_def upto_as_map)
  have lookup: "map_of d (keys ! j) = Some [[s ! j]]" if "j < n" for j
  proof -
    have "map_of (zip keys vals) (keys ! j) = Some (vals ! j)"
      using len dist that by (intro map_of_zip_nth) simp_all
    then show ?thesis using that by (simp add: d_def vals_def n_def)
  qed
  have "\<forall>q\<in>set keys. \<exists>c. map_of d q = Some [[c]]"
  proof
    fix q assume "q \<in> set keys"
    then obtain j where "j < n" "q = keys ! j" using len by (metis in_set_conv_nth)
    then show "\<exists>c. map_of d q = Some [[c]]" using lookup by blast
  qed
  then have call: "call_positions d (1 / 2) keys = Inr (map (\<lambda>q. hd (the (map_of d q))) keys)"
    by (rule call_positions_singletons)
  have "map (\<lambda>q. hd (the (map_of d q))) keys = map (\<lambda>c. [c]) s"
  proof (rule nth_equalityI)
    show "length (map (\<lambda>q. hd (the (map_of d q))) keys) = length (map (\<lambda>c. [c]) s)"
      by (simp add: len n_def)
    fix j assume "j < length (map (\<lambda>q. hd (the (map_of d q))) keys)"
    then have "j < n" by (simp add: len)
    then show "map (\<lambda>q. hd (the (map_of d q))) keys ! j = map (\<lambda>c. [c]) s ! j"
      using lookup [of j] len by (simp add: n_def)
  qed
  then have call': "call_positions d (1 / 2) keys = Inr (map (\<lambda>c. [c]) s)"
    using call by simp
  have cat: "concat (map (\<lambda>c. [c]) s) = s" by (induction s) simp_all
  have "(case map fst d of
            [] \<Rightarrow> Inl ValueError
          | k # ks \<Rightarrow>
              (case call_positions d (1 / 2) [fold min ks k..fold max ks k] of
                 Inl e \<Rightarrow> Inl e
               | Inr consensus_sequence \<Rightarrow>
                   Inr (filter (\<lambda>c. c \<noteq> CHR ''.'') (concat consensus_sequence))))
         = Inr (filter (\<lambda>c. c \<noteq> CHR ''.'') s)"
    unfolding fst_d using range call' cat by (simp add: kks)
  then show ?thesis by (simp only: d_def keys_def vals_def n_def)
qed

lemma consensus_single_dotted:
  assumes "pos r \<noteq> 0"
  shows "consensus [r] (1 / 2) =
     (if dot_from_queue (seq r, cigar r, pos r)
           (make_dot_queue (seq r, cigar r, pos r) [(seq r, cigar r, pos r)]) = []
      then Inl ValueError
      else Inr (filter (\<lambda>c. c \<noteq> CHR ''.'') (seq r)))"
proof -
  define s where "s = dot_from_queue (seq r, cigar r, pos r)
           (make_dot_queue (seq r, cigar r, pos r) [(seq r, cigar r, pos r)])"
  have di: "dot_indels [r] = [(s, cigar r, pos r)]"
    by (simp add: dot_indels_def s_def)
  have coll: "collect_nucleotides [] (dot_indels [r]) =
      Inr (zip (map (\<lambda>k. pos r + int k) [0..<length s]) (map (\<lambda>c. [[c]]) s))"
    using assms add_nucleotides_fresh [of "[]" "pos r" s] by (simp add: di)
  have filt: "filter (\<lambda>c. c \<noteq> CHR ''.'') s = filter (\<lambda>c. c \<noteq> CHR ''.'') (seq r)"
    by (simp add: s_def dot_from_queue_def filter_dot_from_queue_loop)
  show ?thesis
  proof (cases "s = []")
    case True
    then show ?thesis unfolding consensus_def coll s_def [symmetric] by simp
  next
    case False
    then show ?thesis
      unfolding consensus_def coll s_def [symmetric]
      using consensus_of_fresh_dictionary [OF False, of "pos r"] filt by simp
  qed
qed

text \<open>
  C8, amended. For a single mapped read with a non-empty sequence, \<open>consensus\<close> on the
  group of that read alone, with cutoff \<open>1 / 2\<close>, returns the sequence of the read with
  every gap filler \<open>.\<close> removed; for an unmapped read it raises \<open>UnmappedReadError\<close>,
  whatever the cutoff.
\<close>

theorem consensus_single_read:
  "(pos r \<noteq> 0 \<and> seq r \<noteq> [] \<longrightarrow>
      consensus [r] (1 / 2) = Inr (filter (\<lambda>c. c \<noteq> CHR ''.'') (seq r))) \<and>
   (pos r = 0 \<longrightarrow> consensus [r] cutoff = Inl UnmappedReadError)"
proof (intro conjI impI)
  assume h: "pos r \<noteq> 0 \<and> seq r \<noteq> []"
  then have "dot_from_queue (seq r, cigar r, pos r)
           (make_dot_queue (seq r, cigar r, pos r) [(seq r, cigar r, pos r)]) \<noteq> []"
    by (simp add: dot_from_queue_def dot_from_queue_loop_nonempty)
  then show "consensus [r] (1 / 2) = Inr (filter (\<lambda>c. c \<noteq> CHR ''.'') (seq r))"
    using h by (simp add: consensus_single_dotted)
next
  assume "pos r = 0"
  then show "consensus [r] cutoff = Inl UnmappedReadError"
    by (simp add: consensus_unmapped_iff)
qed

theorem consensus_single_read_witness:
  "pos (mk_read 7 [(2, CHR ''M''), (1, CHR ''D''), (2, CHR ''M'')] ''AC.GT'') \<noteq> 0 \<and>
   seq (mk_read 7 [(2, CHR ''M''), (1, CHR ''D''), (2, CHR ''M'')] ''AC.GT'') \<noteq> [] \<and>
   consensus [mk_read 7 [(2, CHR ''M''), (1, CHR ''D''), (2, CHR ''M'')] ''AC.GT''] (1 / 2)
     = Inr ''ACGT'' \<and>
   pos (mk_read 0 [] ''ACGT'') = 0 \<and>
   consensus [mk_read 0 [] ''ACGT''] (1 / 2) = Inl UnmappedReadError"
  using consensus_single_read
          [of "mk_read 7 [(2, CHR ''M''), (1, CHR ''D''), (2, CHR ''M'')] ''AC.GT''" "1 / 2"]
        consensus_single_read [of "mk_read 0 [] ''ACGT''" "1 / 2"]
  by (simp add: mk_read_def)

text \<open>
  C8, as the claim states it, fails for a mapped read whose sequence is empty and whose
  cigar adds no gap: no position is covered, and \<open>consensus\<close> fails with the
  \<open>ValueError\<close> of \<^verbatim>\<open>min\<close> on an empty dictionary instead of returning the empty
  sequence.
\<close>

theorem consensus_single_read_empty_sequence:
  "pos (mk_read 1 [] []) \<noteq> 0 \<and>
   consensus [mk_read 1 [] []] (1 / 2) = Inl ValueError \<and>
   consensus [mk_read 1 [] []] (1 / 2)
     \<noteq> Inr (filter (\<lambda>c. c \<noteq> CHR ''.'') (seq (mk_read 1 [] [])))"
  by (simp add: consensus_def dot_indels_def mk_read_def dot_from_queue_def make_dot_queue_def
      convert_indecies_def)

section \<open>Parsing and printing a cigar\<close>

lemma digit_char_digit_val: "is_digit c \<Longrightarrow> digit_char (digit_val c) = c"
  by (simp add: is_digit_def digit_char_def digit_val_def)

lemma digit_val_less: "is_digit c \<Longrightarrow> digit_val c < 10"
  unfolding is_digit_def digit_val_def by arith

lemma digit_val_pos: "is_digit c \<Longrightarrow> c \<noteq> CHR ''0'' \<Longrightarrow> 0 < digit_val c"
proof -
  assume d: "is_digit c" and nz: "c \<noteq> CHR ''0''"
  have "(of_char c :: nat) \<noteq> of_char CHR ''0''" using nz by (simp only: of_char_eq_iff) simp
  then have "(of_char c :: nat) \<noteq> 48" by simp
  then show ?thesis using d by (simp add: is_digit_def digit_val_def)
qed

lemma int_of_digits_snoc:
  "int_of_digits (ds @ [d]) = 10 * int_of_digits ds + int (digit_val d)"
  by (simp add: int_of_digits_def)

lemma int_of_digits_nonneg: "0 \<le> int_of_digits ds"
  by (induction ds rule: rev_induct) (simp_all add: int_of_digits_snoc, simp add: int_of_digits_def)

lemma int_of_digits_pos:
  "ds \<noteq> [] \<Longrightarrow> list_all is_digit ds \<Longrightarrow> hd ds \<noteq> CHR ''0'' \<Longrightarrow> 0 < int_of_digits ds"
proof (induction ds rule: rev_induct)
  case Nil
  then show ?case by simp
next
  case (snoc d ds)
  show ?case
  proof (cases "ds = []")
    case True
    then show ?thesis using snoc.prems digit_val_pos [of d] by (simp add: int_of_digits_def)
  next
    case False
    then have "0 < int_of_digits ds" using snoc by simp
    then show ?thesis by (simp add: int_of_digits_snoc)
  qed
qed

lemma str_nat_int_of_digits:
  "canonical_number ds \<Longrightarrow> str_nat (nat (int_of_digits ds)) = ds"
proof (induction ds rule: rev_induct)
  case Nil
  then show ?case by (simp add: canonical_number_def)
next
  case (snoc d ds)
  have d: "is_digit d" and all: "list_all is_digit ds"
    using snoc.prems by (simp_all add: canonical_number_def)
  have val: "nat (int_of_digits (ds @ [d])) = 10 * nat (int_of_digits ds) + digit_val d"
    using int_of_digits_nonneg [of ds] by (simp add: int_of_digits_snoc nat_add_distrib nat_mult_distrib)
  show ?case
  proof (cases "ds = []")
    case True
    then have "nat (int_of_digits (ds @ [d])) = digit_val d" by (simp add: int_of_digits_def)
    then show ?thesis
      using True digit_val_less [OF d] digit_char_digit_val [OF d]
      by (simp add: str_nat.simps [of "digit_val d"])
  next
    case False
    then have hd: "hd ds \<noteq> CHR ''0''" using snoc.prems by (auto simp: canonical_number_def)
    then have canon: "canonical_number ds" using False all by (simp add: canonical_number_def)
    have "0 < int_of_digits ds" using False all hd by (rule int_of_digits_pos)
    then have big: "\<not> 10 * nat (int_of_digits ds) + digit_val d < 10" by simp
    have dv: "(10 * nat (int_of_digits ds) + digit_val d) div 10 = nat (int_of_digits ds)"
      "(10 * nat (int_of_digits ds) + digit_val d) mod 10 = digit_val d"
      using digit_val_less [OF d] by simp_all
    show ?thesis
      unfolding val
      using big dv snoc.IH [OF canon] digit_char_digit_val [OF d]
      by (simp add: str_nat.simps [of "10 * nat (int_of_digits ds) + digit_val d"])
  qed
qed

lemma str_int_int_of_digits: "canonical_number ds \<Longrightarrow> str_int (int_of_digits ds) = ds"
  using int_of_digits_nonneg [of ds] by (simp add: str_int_def str_nat_int_of_digits)

lemma findall_tokens_digits:
  "list_all is_digit ds \<Longrightarrow> findall_tokens acc (ds @ rest) = findall_tokens (acc @ ds) rest"
  by (induction ds arbitrary: acc) simp_all

lemma findall_tokens_token:
  assumes "list_all is_digit ds" "ds \<noteq> []" "\<not> is_digit op"
  shows "findall_tokens [] (ds @ op # rest) = (ds, op) # findall_tokens [] rest"
  using assms by (simp add: findall_tokens_digits)

lemma findall_tokens_operation_string:
  "list_all (\<lambda>(ds, op). canonical_number ds \<and> \<not> is_digit op) ts \<Longrightarrow>
   findall_tokens [] (operation_string ts) = ts"
proof (induction ts)
  case Nil
  show ?case by (simp add: operation_string_def)
next
  case (Cons t ts)
  obtain ds op where t: "t = (ds, op)" by (cases t)
  have "list_all is_digit ds" "ds \<noteq> []" "\<not> is_digit op"
    using Cons.prems by (simp_all add: t canonical_number_def)
  then have "findall_tokens [] (ds @ op # operation_string ts)
             = (ds, op) # findall_tokens [] (operation_string ts)"
    by (rule findall_tokens_token)
  then show ?case using Cons by (simp add: t operation_string_def)
qed

text \<open>
  C9, amended. For an operation string made of at least one token, each a decimal
  length written without leading zeros followed by one character that is not a digit,
  printing the parsed string gives the string back. The string \<open>*\<close> parses to the
  empty list and the empty list prints as \<open>*\<close>.
\<close>

theorem print_read_cigar_round_trip:
  "(well_formed_tokens ts \<longrightarrow>
      print_cigar (read_cigar (operation_string ts)) = operation_string ts) \<and>
   read_cigar ''*'' = [] \<and> print_cigar [] = ''*'' \<and> print_cigar (read_cigar ''*'') = ''*''"
proof (intro conjI impI)
  assume wf: "well_formed_tokens ts"
  then have ne: "ts \<noteq> []"
    and all: "list_all (\<lambda>(ds, op). canonical_number ds \<and> \<not> is_digit op) ts"
    by (simp_all add: well_formed_tokens_def)
  have rd: "read_cigar (operation_string ts) = map (\<lambda>(a, b). (int_of_digits a, b)) ts"
    using all by (simp add: read_cigar_def findall_tokens_operation_string)
  have m: "map (\<lambda>(n, op). str_int n @ [op]) (map (\<lambda>(a, b). (int_of_digits a, b)) ts)
        = map (\<lambda>(ds, op). ds @ [op]) ts"
    using all by (induction ts) (auto simp: str_int_int_of_digits)
  have pc: "print_cigar (map (\<lambda>(a, b). (int_of_digits a, b)) ts)
        = concat (map (\<lambda>(n, op). str_int n @ [op]) (map (\<lambda>(a, b). (int_of_digits a, b)) ts))"
    using ne by (simp add: print_cigar_def)
  show "print_cigar (read_cigar (operation_string ts)) = operation_string ts"
    unfolding rd pc m by (simp only: operation_string_def)
next
  show star: "read_cigar ''*'' = []"
    by (simp add: read_cigar_def is_digit_def)
  show "print_cigar [] = ''*''" by (simp add: print_cigar_def)
  show "print_cigar (read_cigar ''*'') = ''*''" by (simp add: star print_cigar_def)
qed

theorem print_read_cigar_round_trip_witness:
  "operation_string [(''18'', CHR ''M''), (''2'', CHR ''D''), (''20'', CHR ''M'')] = ''18M2D20M'' \<and>
   print_cigar (read_cigar ''18M2D20M'') = ''18M2D20M''"
  using print_read_cigar_round_trip [of "[(''18'', CHR ''M''), (''2'', CHR ''D''), (''20'', CHR ''M'')]"]
  by (simp add: well_formed_tokens_def canonical_number_def is_digit_def operation_string_def)

text \<open>
  C9, as the claim states it, fails on a length written with a leading zero: parsing
  keeps the number only, so \<open>01M\<close> comes back as \<open>1M\<close>.
\<close>

theorem print_read_cigar_leading_zero:
  "print_cigar (read_cigar ''01M'') \<noteq> ''01M''"
  by (simp add: read_cigar_def is_digit_def int_of_digits_def digit_val_def print_cigar_def
      str_int_def str_nat.simps digit_char_def)

end
